theory Spec2Isabelle
  imports Main "HOL-Library.Multiset"
begin

section \<open>Python string operations used by \<^verbatim>\<open>flashcard_generator.py\<close>\<close>

text \<open>
  Strings are lists of characters. The model covers ASCII text: a character above 127 is
  neither whitespace nor cased. \<open>isspace\<close> is Python's \<^verbatim>\<open>str.isspace\<close> on one ASCII
  character (tab, line feed, vertical tab, form feed, carriage return, the four separators
  28 to 31, and the space).
\<close>

definition isspace :: "char \<Rightarrow> bool" where
  "isspace c = (let n = (of_char c :: nat) in (9 \<le> n \<and> n \<le> 13) \<or> (28 \<le> n \<and> n \<le> 32))"

definition lower_char :: "char \<Rightarrow> char" where
  "lower_char c = (let n = (of_char c :: nat) in if 65 \<le> n \<and> n \<le> 90 then char_of (n + 32) else c)"

text \<open>\<^verbatim>\<open>s.lower()\<close>\<close>

definition lower :: "string \<Rightarrow> string" where
  "lower s = map lower_char s"

text \<open>\<^verbatim>\<open>s.strip()\<close>\<close>

definition strip :: "string \<Rightarrow> string" where
  "strip s = rev (dropWhile isspace (rev (dropWhile isspace s)))"

text \<open>
  \<^verbatim>\<open>s.split()\<close>: the maximal runs of characters that are not whitespace, in order.
  \<open>split_go cur s\<close> carries the word being read.
\<close>

fun split_go :: "string \<Rightarrow> string \<Rightarrow> string list" where
  "split_go cur [] = (if cur = [] then [] else [cur])"
| "split_go cur (c # cs) =
     (if isspace c then (if cur = [] then split_go [] cs else cur # split_go [] cs)
      else split_go (cur @ [c]) cs)"

definition py_split :: "string \<Rightarrow> string list" where
  "py_split s = split_go [] s"

text \<open>\<^verbatim>\<open>s.startswith(p)\<close>\<close>

fun startswith :: "string \<Rightarrow> string \<Rightarrow> bool" where
  "startswith s [] = True"
| "startswith [] (p # ps) = False"
| "startswith (c # cs) (p # ps) = (c = p \<and> startswith cs ps)"

text \<open>\<^verbatim>\<open>sub in s\<close>\<close>

fun contains :: "string \<Rightarrow> string \<Rightarrow> bool" where
  "contains sub [] = (sub = [])"
| "contains sub (c # cs) = (startswith (c # cs) sub \<or> contains sub cs)"

text \<open>
  \<^verbatim>\<open>s.replace(old, new, 1)\<close>: the leftmost occurrence of \<open>old\<close> is replaced; a string
  without an occurrence is returned as it is.
\<close>

fun replace1 :: "string \<Rightarrow> string \<Rightarrow> string \<Rightarrow> string" where
  "replace1 old new [] = (if old = [] then new else [])"
| "replace1 old new (c # cs) =
     (if startswith (c # cs) old then new @ drop (length old) (c # cs)
      else c # replace1 old new cs)"

text \<open>\<^verbatim>\<open>s.replace("_", " ")\<close>: every underscore becomes a space.\<close>

definition replace_underscores :: "string \<Rightarrow> string" where
  "replace_underscores s = map (\<lambda>c. if c = CHR ''_'' then CHR '' '' else c) s"

text \<open>\<^verbatim>\<open>str(n)\<close> for a natural number: its decimal digits.\<close>

fun str_of_nat :: "nat \<Rightarrow> string" where
  "str_of_nat n =
     (if n < 10 then [char_of (48 + n)]
      else str_of_nat (n div 10) @ [char_of (48 + n mod 10)])"

declare str_of_nat.simps [simp del]

section \<open>The annotated document\<close>

text \<open>
  What the code reads of spaCy's objects: a token's \<^verbatim>\<open>text\<close> and \<^verbatim>\<open>pos_\<close>, an entity
  span's \<^verbatim>\<open>text\<close> and \<^verbatim>\<open>label_\<close>, a noun chunk's \<^verbatim>\<open>text\<close> and \<^verbatim>\<open>root.pos_\<close>, a
  sentence's \<^verbatim>\<open>text\<close>, \<^verbatim>\<open>ents\<close> and \<^verbatim>\<open>noun_chunks\<close>, and the document's \<^verbatim>\<open>sents\<close>,
  \<^verbatim>\<open>ents\<close> and tokens.
\<close>

record token =
  tok_text :: string
  tok_pos :: string

record ent =
  ent_text :: string
  ent_label :: string

record chunk =
  chunk_text :: string
  chunk_root_pos :: string

record sent =
  sent_text :: string
  sent_ents :: "ent list"
  sent_noun_chunks :: "chunk list"

record doc =
  doc_sents :: "sent list"
  doc_ents :: "ent list"
  doc_tokens :: "token list"

record flashcard =
  card_type :: string
  question :: string
  answer :: string
  options :: "string list"

datatype error = ValueError | IndexError

section \<open>The collaborators\<close>

text \<open>
  \<open>nlp\<close> is the spaCy pipeline, \<open>wordnet_synsets\<close> gives for a word its synsets, each as
  the list of its lemma names, and \<open>list_of_set\<close> is the order in which Python iterates the
  set holding the given insertions. \<open>random_shuffle\<close> and \<open>random_sample\<close> are the two
  calls into Python's \<^verbatim>\<open>random\<close> module; the generator state \<open>'r\<close> is passed in and
  returned. \<open>random_sample\<close> is only called with a sample size within the population; the
  \<^verbatim>\<open>ValueError\<close> of the other case is raised by \<open>py_sample\<close> below.
\<close>

record 'r env =
  nlp :: "string \<Rightarrow> doc"
  wordnet_synsets :: "string \<Rightarrow> string list list"
  list_of_set :: "string list \<Rightarrow> string list"
  random_shuffle :: "'r \<Rightarrow> string list \<Rightarrow> string list \<times> 'r"
  random_sample :: "'r \<Rightarrow> string list \<Rightarrow> nat \<Rightarrow> string list \<times> 'r"

definition py_sample :: "'r env \<Rightarrow> 'r \<Rightarrow> string list \<Rightarrow> int \<Rightarrow> error + (string list \<times> 'r)" where
  "py_sample E r population k =
     (if k < 0 \<or> int (length population) < k then Inl ValueError
      else Inr (random_sample E r population (nat k)))"

text \<open>
  The documented behaviour of the library: a shuffle is a permutation, a sample of size
  \<open>k\<close> is \<open>k\<close> elements drawn from distinct positions, and iterating a set yields each
  element once.
\<close>

definition random_ok :: "'r env \<Rightarrow> bool" where
  "random_ok E =
     ((\<forall>r xs. mset (fst (random_shuffle E r xs)) = mset xs) \<and>
      (\<forall>r xs k. k \<le> length xs \<longrightarrow>
          length (fst (random_sample E r xs k)) = k \<and>
          mset (fst (random_sample E r xs k)) \<subseteq># mset xs))"

definition set_ok :: "'r env \<Rightarrow> bool" where
  "set_ok E = (\<forall>xs. set (list_of_set E xs) = set xs \<and> distinct (list_of_set E xs))"

section \<open>\<^verbatim>\<open>get_synonyms\<close>\<close>

definition get_synonyms :: "'r env \<Rightarrow> string \<Rightarrow> string list" where
  "get_synonyms E word =
     list_of_set E
       (concat (map (\<lambda>syn.
          concat (map (\<lambda>lemma_name.
            (let synonym = replace_underscores lemma_name
             in if lower synonym \<noteq> lower word then [synonym] else [])) syn))
          (wordnet_synsets E word)))"

section \<open>\<^verbatim>\<open>generate_mcq_flashcards\<close>\<close>

definition accepted_labels :: "string list" where
  "accepted_labels =
     [''GPE'', ''LOC'', ''ORG'', ''PERSON'', ''NORP'', ''FAC'', ''PRODUCT'', ''EVENT'',
      ''WORK_OF_ART'', ''LAW'', ''LANGUAGE'', ''PERCENT'', ''MONEY'', ''QUANTITY'', ''ORDINAL'']"

definition blank :: string where
  "blank = ''______''"

text \<open>Python's \<^verbatim>\<open>not answer_candidate\<close>: true of \<^verbatim>\<open>None\<close> and of the empty string.\<close>

fun falsy :: "string option \<Rightarrow> bool" where
  "falsy None = True"
| "falsy (Some s) = (s = [])"

text \<open>Lines 84 to 87: the loop over \<^verbatim>\<open>sent.ents\<close>, left at the first accepted label.\<close>

fun entity_loop :: "ent list \<Rightarrow> string option" where
  "entity_loop [] = None"
| "entity_loop (e # es) =
     (if ent_label e \<in> set accepted_labels then Some (ent_text e) else entity_loop es)"

text \<open>
  Lines 91 to 95: the loop over \<^verbatim>\<open>sent.noun_chunks\<close>; \<open>cand\<close> is the value of
  \<^verbatim>\<open>answer_candidate\<close> on entry, kept when no chunk is taken.
\<close>

fun chunk_loop :: "string option \<Rightarrow> chunk list \<Rightarrow> string option" where
  "chunk_loop cand [] = cand"
| "chunk_loop cand (c # cs) =
     (if length (py_split (chunk_text c)) > 1 \<and> length (chunk_text c) > 5 \<and> chunk_root_pos c = ''NOUN''
      then Some (chunk_text c) else chunk_loop cand cs)"

text \<open>
  Lines 82 to 102. \<open>None\<close> is one of the two \<^verbatim>\<open>continue\<close> statements of lines 98 and 102.
\<close>

definition answer_picker :: "sent \<Rightarrow> string option" where
  "answer_picker s =
     (let c1 = entity_loop (sent_ents s);
          c2 = (if falsy c1 then chunk_loop c1 (sent_noun_chunks s) else c1)
      in if falsy c2 then None
         else (case c2 of
                 None \<Rightarrow> None
               | Some a \<Rightarrow> if strip a = [] \<or> length (strip a) < 3 then None else Some a))"

text \<open>Lines 104 to 108. \<open>None\<close> is the \<^verbatim>\<open>continue\<close> of line 108.\<close>

definition question_masker :: "string \<Rightarrow> string \<Rightarrow> string option" where
  "question_masker sentence answer_candidate =
     (let question_text = replace1 answer_candidate blank sentence
      in if contains (lower answer_candidate) (lower question_text) \<and> \<not> contains blank question_text
         then None else Some question_text)"

text \<open>Line 114.\<close>

definition target_word_for_synonym :: "string \<Rightarrow> error + string" where
  "target_word_for_synonym answer_candidate =
     (if CHR '' '' \<in> set answer_candidate
      then (case py_split answer_candidate of [] \<Rightarrow> Inl IndexError | w # ws \<Rightarrow> Inr (last (w # ws)))
      else Inr answer_candidate)"

text \<open>Lines 119 to 127: the list handed to the shuffle of line 129.\<close>

definition temp_distractors_from_text :: "doc \<Rightarrow> string \<Rightarrow> string list" where
  "temp_distractors_from_text d answer_candidate =
     [ent_text other_ent. other_ent \<leftarrow> doc_ents d,
        lower (ent_text other_ent) \<noteq> lower answer_candidate \<and> length (py_split (ent_text other_ent)) < 4] @
     [tok_text t. t \<leftarrow> doc_tokens d,
        tok_pos t = ''NOUN'' \<and> lower (tok_text t) \<noteq> lower answer_candidate \<and> length (tok_text t) > 2]"

text \<open>Lines 130 to 134.\<close>

fun extend_pool :: "int \<Rightarrow> string list \<Rightarrow> string list \<Rightarrow> string list" where
  "extend_pool n possible_distractors [] = possible_distractors"
| "extend_pool n possible_distractors (d_text # rest) =
     (if d_text \<notin> set possible_distractors
      then (let pd = possible_distractors @ [d_text]
            in if int (length pd) \<ge> n * 2 then pd else extend_pool n pd rest)
      else extend_pool n possible_distractors rest)"

text \<open>Lines 115 to 134.\<close>

definition possible_distractors :: "'r env \<Rightarrow> doc \<Rightarrow> int \<Rightarrow> string \<Rightarrow> string \<Rightarrow> 'r \<Rightarrow> string list \<times> 'r" where
  "possible_distractors E d n answer_candidate target r =
     (let pd = get_synonyms E target
      in if int (length pd) < n
         then (let (shuffled, r') = random_shuffle E r (temp_distractors_from_text d answer_candidate)
               in (extend_pool n pd shuffled, r'))
         else (pd, r))"

text \<open>Lines 138 to 143.\<close>

fun select_final :: "int \<Rightarrow> string \<Rightarrow> string list \<Rightarrow> string list \<Rightarrow> string list" where
  "select_final n answer_candidate final_distractors [] = final_distractors"
| "select_final n answer_candidate final_distractors (d # ds) =
     (if lower d \<noteq> lower answer_candidate \<and> lower d \<notin> set (map lower final_distractors)
      then (let fd = final_distractors @ [d]
            in if int (length fd) \<ge> n then fd else select_final n answer_candidate fd ds)
      else select_final n answer_candidate final_distractors ds)"

text \<open>Lines 146 and 147.\<close>

function pad_distractors :: "int \<Rightarrow> string list \<Rightarrow> string list" where
  "pad_distractors n final_distractors =
     (if int (length final_distractors) < n
      then pad_distractors n
             (final_distractors @ [''Option '' @ str_of_nat (length final_distractors + 1)])
      else final_distractors)"
  by pat_completeness auto
termination
  by (relation "measure (\<lambda>(n, fd). nat (n - int (length fd)))") auto

declare pad_distractors.simps [simp del]

text \<open>
  The body of the loop over \<^verbatim>\<open>doc.sents\<close> for one sentence: \<open>Inr (None, r)\<close> is a
  \<^verbatim>\<open>continue\<close>, \<open>Inr (Some fc, r')\<close> the flashcard appended at line 154, \<open>Inl e\<close> an
  exception.
\<close>

definition sentence_step ::
  "'r env \<Rightarrow> doc \<Rightarrow> int \<Rightarrow> sent \<Rightarrow> 'r \<Rightarrow> error + (flashcard option \<times> 'r)" where
  "sentence_step E d num_distractors s r =
     (let sentence = strip (sent_text s) in
      if sentence = [] then Inr (None, r)
      else case answer_picker s of
        None \<Rightarrow> Inr (None, r)
      | Some answer_candidate \<Rightarrow>
         (case question_masker sentence answer_candidate of
            None \<Rightarrow> Inr (None, r)
          | Some question_text \<Rightarrow>
             (case target_word_for_synonym answer_candidate of
                Inl e \<Rightarrow> Inl e
              | Inr target \<Rightarrow>
                 (let (pd, r1) = possible_distractors E d num_distractors answer_candidate target r;
                      final_distractors =
                        pad_distractors num_distractors
                          (select_final num_distractors answer_candidate [] pd)
                  in case py_sample E r1 final_distractors
                            (min (int (length final_distractors)) num_distractors) of
                       Inl e \<Rightarrow> Inl e
                     | Inr (sampled, r2) \<Rightarrow>
                        (let (opts, r3) = random_shuffle E r2 (answer_candidate # sampled)
                         in Inr (Some \<lparr>card_type = ''mcq'',
                                       question = strip question_text,
                                       answer = strip answer_candidate,
                                       options = opts\<rparr>, r3))))))"

fun sents_loop ::
  "'r env \<Rightarrow> doc \<Rightarrow> int \<Rightarrow> sent list \<Rightarrow> flashcard list \<Rightarrow> 'r \<Rightarrow> error + (flashcard list \<times> 'r)" where
  "sents_loop E d n [] flashcards r = Inr (flashcards, r)"
| "sents_loop E d n (s # ss) flashcards r =
     (case sentence_step E d n s r of
        Inl e \<Rightarrow> Inl e
      | Inr (None, r') \<Rightarrow> sents_loop E d n ss flashcards r'
      | Inr (Some fc, r') \<Rightarrow> sents_loop E d n ss (flashcards @ [fc]) r')"

definition generate_mcq_flashcards ::
  "'r env \<Rightarrow> 'r \<Rightarrow> string \<Rightarrow> int \<Rightarrow> error + (flashcard list \<times> 'r)" where
  "generate_mcq_flashcards E r doc_text num_distractors =
     (let d = nlp E doc_text in sents_loop E d num_distractors (doc_sents d) [] r)"

section \<open>Notions used to state the properties\<close>

text \<open>
  A sentence is skipped when the loop body reaches one of its \<^verbatim>\<open>continue\<close> statements
  (lines 80, 98, 102 and 108).
\<close>

definition sentence_skipped :: "sent \<Rightarrow> bool" where
  "sentence_skipped s =
     (strip (sent_text s) = [] \<or>
      (case answer_picker s of
         None \<Rightarrow> True
       | Some a \<Rightarrow> question_masker (strip (sent_text s)) a = None))"

text \<open>The question and answer of each flashcard of a result, an exception kept as it is.\<close>

definition qa_pairs :: "error + (flashcard list \<times> 'r) \<Rightarrow> error + (string \<times> string) list" where
  "qa_pairs res =
     (case res of Inl e \<Rightarrow> Inl e | Inr (cards, r) \<Rightarrow> Inr (map (\<lambda>c. (question c, answer c)) cards))"

text \<open>
  The masking as the specification words it: \<open>sub\<close> occurs in \<open>s\<close> at index \<open>i\<close>, the
  first occurrence is the least such index, and the blank marker takes the place of that
  occurrence only.
\<close>

definition occurs_at :: "string \<Rightarrow> string \<Rightarrow> nat \<Rightarrow> bool" where
  "occurs_at sub s i = (i + length sub \<le> length s \<and> take (length sub) (drop i s) = sub)"

definition first_occurrence :: "string \<Rightarrow> string \<Rightarrow> nat option" where
  "first_occurrence sub s = List.find (occurs_at sub s) [0..<Suc (length s)]"

definition spec_mask :: "string \<Rightarrow> string \<Rightarrow> string" where
  "spec_mask a s =
     (case first_occurrence a s of
        None \<Rightarrow> s
      | Some i \<Rightarrow> take i s @ blank @ drop (i + length a) s)"

text \<open>
  The answer picker as the specification words it: the first entity with an accepted
  label, else the first noun chunk of more than one word, more than 5 characters and a
  root tagged \<^verbatim>\<open>NOUN\<close>; a candidate whose trimmed text has fewer than 3 characters is
  rejected.
\<close>

definition accepted :: "ent \<Rightarrow> bool" where
  "accepted e = (ent_label e \<in> set accepted_labels)"

definition chunk_ok :: "chunk \<Rightarrow> bool" where
  "chunk_ok c =
     (length (py_split (chunk_text c)) > 1 \<and> length (chunk_text c) > 5 \<and> chunk_root_pos c = ''NOUN'')"

definition reject_short :: "string \<Rightarrow> string option" where
  "reject_short a = (if length (strip a) < 3 then None else Some a)"

definition first_chunk :: "sent \<Rightarrow> string option" where
  "first_chunk s =
     (case List.find chunk_ok (sent_noun_chunks s) of
        None \<Rightarrow> None
      | Some c \<Rightarrow> reject_short (chunk_text c))"

definition spec_answer_picker :: "sent \<Rightarrow> string option" where
  "spec_answer_picker s =
     (case List.find accepted (sent_ents s) of
        Some e \<Rightarrow> reject_short (ent_text e)
      | None \<Rightarrow> first_chunk s)"

text \<open>
  The candidates of a document that do not depend on the answer: the entity texts of fewer
  than 4 words, then the texts of the tokens tagged \<^verbatim>\<open>NOUN\<close> of more than 2 characters.
\<close>

definition document_candidates :: "doc \<Rightarrow> string list" where
  "document_candidates d =
     [ent_text e. e \<leftarrow> doc_ents d, length (py_split (ent_text e)) < 4] @
     [tok_text t. t \<leftarrow> doc_tokens d, tok_pos t = ''NOUN'' \<and> length (tok_text t) > 2]"

text \<open>The lookup key as the specification words it: the last word of several, else the answer.\<close>

definition spec_lookup_key :: "string \<Rightarrow> string" where
  "spec_lookup_key a = (if length (py_split a) > 1 then last (py_split a) else a)"

section \<open>A stubbed environment and sample documents\<close>

text \<open>
  A deterministic stand-in for the collaborators: the generator state is a counter, a
  shuffle rotates the list by the counter, a sample takes the first \<open>k\<close> elements of the
  rotated list, and a set is iterated in insertion order.
\<close>

definition stub_env :: "(string \<Rightarrow> doc) \<Rightarrow> (string \<Rightarrow> string list list) \<Rightarrow> nat env" where
  "stub_env annotate synsets =
     \<lparr>nlp = annotate,
      wordnet_synsets = synsets,
      list_of_set = remdups,
      random_shuffle = (\<lambda>r xs. (rotate r xs, Suc r)),
      random_sample = (\<lambda>r xs k. (take k (rotate r xs), Suc r))\<rparr>"

definition no_synsets :: "string \<Rightarrow> string list list" where
  "no_synsets w = []"

text \<open>The two sentences of the specification's end-to-end scenario, annotated as it says.\<close>

definition paris_doc :: doc where
  "paris_doc =
     \<lparr>doc_sents =
        [\<lparr>sent_text = ''The capital city of France is Paris.'',
          sent_ents = [\<lparr>ent_text = ''Paris'', ent_label = ''GPE''\<rparr>],
          sent_noun_chunks = [\<lparr>chunk_text = ''The capital city'', chunk_root_pos = ''NOUN''\<rparr>]\<rparr>,
         \<lparr>sent_text = ''Paris is famous for the Eiffel Tower and the Louvre Museum.'',
          sent_ents = [\<lparr>ent_text = ''Eiffel Tower'', ent_label = ''FAC''\<rparr>],
          sent_noun_chunks = []\<rparr>],
      doc_ents =
        [\<lparr>ent_text = ''Paris'', ent_label = ''GPE''\<rparr>,
         \<lparr>ent_text = ''Eiffel Tower'', ent_label = ''FAC''\<rparr>],
      doc_tokens =
        [\<lparr>tok_text = ''capital'', tok_pos = ''NOUN''\<rparr>,
         \<lparr>tok_text = ''city'', tok_pos = ''NOUN''\<rparr>,
         \<lparr>tok_text = ''France'', tok_pos = ''PROPN''\<rparr>,
         \<lparr>tok_text = ''Paris'', tok_pos = ''PROPN''\<rparr>]\<rparr>"

definition paris_synsets :: "string \<Rightarrow> string list list" where
  "paris_synsets w =
     (if w = ''Paris'' then [[''Paris'', ''City_of_Light'', ''French_capital''], [''Paris'', ''genus_Paris'']]
      else if w = ''Tower'' then [[''tower''], [''column'', ''tower'', ''pillar'']]
      else [])"

definition paris_env :: "nat env" where
  "paris_env = stub_env (\<lambda>t. paris_doc) paris_synsets"

text \<open>A sentence in which the answer occurs twice.\<close>

definition repeat_doc :: doc where
  "repeat_doc =
     \<lparr>doc_sents =
        [\<lparr>sent_text = ''Paris loves Paris.'',
          sent_ents = [\<lparr>ent_text = ''Paris'', ent_label = ''GPE''\<rparr>],
          sent_noun_chunks = []\<rparr>],
      doc_ents = [\<lparr>ent_text = ''Paris'', ent_label = ''GPE''\<rparr>],
      doc_tokens = []\<rparr>"

definition repeat_env :: "nat env" where
  "repeat_env = stub_env (\<lambda>t. repeat_doc) no_synsets"

text \<open>A sentence whose answer reads like a placeholder.\<close>

definition option_doc :: doc where
  "option_doc =
     \<lparr>doc_sents =
        [\<lparr>sent_text = ''Pick Option 1 now.'',
          sent_ents = [\<lparr>ent_text = ''Option 1'', ent_label = ''PRODUCT''\<rparr>],
          sent_noun_chunks = []\<rparr>],
      doc_ents = [\<lparr>ent_text = ''Option 1'', ent_label = ''PRODUCT''\<rparr>],
      doc_tokens = []\<rparr>"

definition option_env :: "nat env" where
  "option_env = stub_env (\<lambda>t. option_doc) no_synsets"

text \<open>
  A document all of whose sentences are skipped: blank text, no candidate, a candidate of
  two characters, and an answer that occurs in the sentence in another case only.
\<close>

definition skipped_doc :: doc where
  "skipped_doc =
     \<lparr>doc_sents =
        [\<lparr>sent_text = ''   '', sent_ents = [], sent_noun_chunks = []\<rparr>,
         \<lparr>sent_text = ''It rains.'', sent_ents = [], sent_noun_chunks = []\<rparr>,
         \<lparr>sent_text = ''Al sings.'',
          sent_ents = [\<lparr>ent_text = ''Al'', ent_label = ''PERSON''\<rparr>],
          sent_noun_chunks = []\<rparr>,
         \<lparr>sent_text = ''paris is nice.'',
          sent_ents = [\<lparr>ent_text = ''Paris'', ent_label = ''GPE''\<rparr>],
          sent_noun_chunks = []\<rparr>],
      doc_ents = [],
      doc_tokens = []\<rparr>"

definition skipped_env :: "nat env" where
  "skipped_env = stub_env (\<lambda>t. skipped_doc) no_synsets"

text \<open>A synset of WordNet for \<^verbatim>\<open>dog\<close> that holds \<^verbatim>\<open>hot_dog\<close>.\<close>

definition dog_synsets :: "string \<Rightarrow> string list list" where
  "dog_synsets w = (if w = ''dog'' then [[''frank'', ''hot_dog'', ''dog'']] else [])"

definition dog_env :: "nat env" where
  "dog_env = stub_env (\<lambda>t. paris_doc) dog_synsets"

section \<open>Strings\<close>

lemma split_go_Nil_iff: "split_go cur s = [] \<longleftrightarrow> cur = [] \<and> (\<forall>c\<in>set s. isspace c)"
  by (induction s arbitrary: cur) auto

lemma strip_Nil_iff: "strip s = [] \<longleftrightarrow> (\<forall>c\<in>set s. isspace c)"
proof -
  have "set s = set (takeWhile isspace s) \<union> set (dropWhile isspace s)"
    by (metis set_append takeWhile_dropWhile_id)
  moreover have "\<forall>c\<in>set (takeWhile isspace s). isspace c"
    by (auto dest: set_takeWhileD)
  ultimately show ?thesis
    by (auto simp: strip_def dropWhile_eq_Nil_conv)
qed

lemma py_split_nonempty: "strip a \<noteq> [] \<Longrightarrow> py_split a \<noteq> []"
  by (simp add: py_split_def split_go_Nil_iff strip_Nil_iff)

lemma target_word_total: "strip a \<noteq> [] \<Longrightarrow> \<exists>t. target_word_for_synonym a = Inr t"
  using py_split_nonempty[of a]
  by (auto simp: target_word_for_synonym_def split: list.splits)

section \<open>The distractor lists\<close>

lemma select_final_length_le:
  "int (length (select_final n a fd pd)) \<le> max n (int (length fd) + 1)"
proof (induction pd arbitrary: fd)
  case Nil
  then show ?case by simp
next
  case (Cons d ds)
  have a: "int (length (select_final n a (fd @ [d]) ds)) \<le> max n (int (length (fd @ [d])) + 1)"
    by (rule Cons.IH)
  have b: "int (length (select_final n a fd ds)) \<le> max n (int (length fd) + 1)"
    by (rule Cons.IH)
  show ?case using a b by (auto simp: Let_def max_def split: if_splits)
qed

lemma pad_distractors_length:
  "int (length (pad_distractors n fd)) = max n (int (length fd))"
proof (induction n fd rule: pad_distractors.induct)
  case (1 n fd)
  show ?case
  proof (cases "int (length fd) < n")
    case True
    with 1 show ?thesis by (subst pad_distractors.simps) (simp add: max_def)
  next
    case False
    then show ?thesis by (subst pad_distractors.simps) (simp add: max_def)
  qed
qed

lemma final_length:
  assumes "1 \<le> n"
  shows "int (length (pad_distractors n (select_final n a [] pd))) = n"
proof -
  have "int (length (select_final n a [] pd)) \<le> max n (int (length ([]::string list)) + 1)"
    by (rule select_final_length_le)
  with assms have "int (length (select_final n a [] pd)) \<le> n" by simp
  then show ?thesis by (simp add: pad_distractors_length)
qed

lemma mset_rotate_eq: "mset (rotate k xs) = mset xs"
proof -
  have "mset (drop (k mod length xs) xs @ take (k mod length xs) xs) =
        mset (take (k mod length xs) xs @ drop (k mod length xs) xs)"
    by (simp only: mset_append union_commute)
  then show ?thesis by (simp add: rotate_drop_take)
qed

lemma stub_env_random_ok: "random_ok (stub_env annotate synsets)"
proof -
  have "mset (take k (rotate r xs)) \<subseteq># mset xs" for k r and xs :: "string list"
  proof -
    have "mset (take k (rotate r xs)) \<subseteq># mset (take k (rotate r xs) @ drop k (rotate r xs))"
      by (simp only: mset_append mset_subset_eq_add_left)
    then show ?thesis by (simp add: mset_rotate_eq)
  qed
  then show ?thesis
    by (simp add: random_ok_def stub_env_def mset_rotate_eq)
qed

lemma stub_env_set_ok: "set_ok (stub_env annotate synsets)"
  by (simp add: set_ok_def stub_env_def)

section \<open>One sentence\<close>

lemma answer_picker_strip: "answer_picker s = Some a \<Longrightarrow> strip a \<noteq> [] \<and> 3 \<le> length (strip a)"
  by (auto simp: answer_picker_def Let_def split: if_splits option.splits)

lemma sentence_step_skip:
  assumes "sentence_skipped s"
  shows "sentence_step E d n s r = Inr (None, r)"
  using assms
  by (auto simp: sentence_skipped_def sentence_step_def Let_def split: option.splits)

lemma sentence_step_run:
  assumes ns: "\<not> sentence_skipped s"
  obtains a q t where
    "answer_picker s = Some a"
    "question_masker (strip (sent_text s)) a = Some q"
    "target_word_for_synonym a = Inr t"
    "sentence_step E d n s r =
       (case possible_distractors E d n a t r of (pd, r1) \<Rightarrow>
          (case py_sample E r1 (pad_distractors n (select_final n a [] pd))
                  (min (int (length (pad_distractors n (select_final n a [] pd)))) n) of
             Inl e \<Rightarrow> Inl e
           | Inr (sampled, r2) \<Rightarrow>
               (case random_shuffle E r2 (a # sampled) of (opts, r3) \<Rightarrow>
                  Inr (Some \<lparr>card_type = ''mcq'', question = strip q, answer = strip a,
                              options = opts\<rparr>, r3))))"
proof -
  from ns have ne: "strip (sent_text s) \<noteq> []" by (simp add: sentence_skipped_def)
  from ns obtain a where a: "answer_picker s = Some a"
    by (auto simp: sentence_skipped_def split: option.splits)
  with ns obtain q where q: "question_masker (strip (sent_text s)) a = Some q"
    by (auto simp: sentence_skipped_def)
  from a have "strip a \<noteq> []" by (simp add: answer_picker_strip)
  then obtain t where t: "target_word_for_synonym a = Inr t"
    using target_word_total by blast
  from ne a q t have
    "sentence_step E d n s r =
       (case possible_distractors E d n a t r of (pd, r1) \<Rightarrow>
          (case py_sample E r1 (pad_distractors n (select_final n a [] pd))
                  (min (int (length (pad_distractors n (select_final n a [] pd)))) n) of
             Inl e \<Rightarrow> Inl e
           | Inr (sampled, r2) \<Rightarrow>
               (case random_shuffle E r2 (a # sampled) of (opts, r3) \<Rightarrow>
                  Inr (Some \<lparr>card_type = ''mcq'', question = strip q, answer = strip a,
                              options = opts\<rparr>, r3))))"
    by (simp add: sentence_step_def Let_def split: prod.splits sum.splits)
  with a q t show ?thesis by (rule that)
qed

lemma sentence_step_raise:
  assumes "\<not> sentence_skipped s" and "n < 0"
  shows "sentence_step E d n s r = Inl ValueError"
proof -
  from assms(1) obtain a q t where
    st: "sentence_step E d n s r =
       (case possible_distractors E d n a t r of (pd, r1) \<Rightarrow>
          (case py_sample E r1 (pad_distractors n (select_final n a [] pd))
                  (min (int (length (pad_distractors n (select_final n a [] pd)))) n) of
             Inl e \<Rightarrow> Inl e
           | Inr (sampled, r2) \<Rightarrow>
               (case random_shuffle E r2 (a # sampled) of (opts, r3) \<Rightarrow>
                  Inr (Some \<lparr>card_type = ''mcq'', question = strip q, answer = strip a,
                              options = opts\<rparr>, r3))))"
    by (rule sentence_step_run)
  have "py_sample E r1 fd (min (int (length fd)) n) = Inl ValueError" for r1 fd
    using assms(2) by (simp add: py_sample_def)
  with st show ?thesis by (simp split: prod.splits)
qed

lemma sentence_step_emit:
  assumes "\<not> sentence_skipped s" and "0 \<le> n"
  obtains a q pd r1 fd sampled r2 opts r3 where
    "answer_picker s = Some a"
    "question_masker (strip (sent_text s)) a = Some q"
    "fd = pad_distractors n (select_final n a [] pd)"
    "random_sample E r1 fd (nat (min (int (length fd)) n)) = (sampled, r2)"
    "random_shuffle E r2 (a # sampled) = (opts, r3)"
    "sentence_step E d n s r =
       Inr (Some \<lparr>card_type = ''mcq'', question = strip q, answer = strip a, options = opts\<rparr>, r3)"
proof -
  from assms(1) obtain a q t where
    a: "answer_picker s = Some a" and q: "question_masker (strip (sent_text s)) a = Some q" and
    st: "sentence_step E d n s r =
       (case possible_distractors E d n a t r of (pd, r1) \<Rightarrow>
          (case py_sample E r1 (pad_distractors n (select_final n a [] pd))
                  (min (int (length (pad_distractors n (select_final n a [] pd)))) n) of
             Inl e \<Rightarrow> Inl e
           | Inr (sampled, r2) \<Rightarrow>
               (case random_shuffle E r2 (a # sampled) of (opts, r3) \<Rightarrow>
                  Inr (Some \<lparr>card_type = ''mcq'', question = strip q, answer = strip a,
                              options = opts\<rparr>, r3))))"
    by (rule sentence_step_run)
  obtain pd r1 where pd: "possible_distractors E d n a t r = (pd, r1)" by fastforce
  define fd where "fd = pad_distractors n (select_final n a [] pd)"
  obtain sampled r2 where
    smp: "random_sample E r1 fd (nat (min (int (length fd)) n)) = (sampled, r2)" by fastforce
  obtain opts r3 where sh: "random_shuffle E r2 (a # sampled) = (opts, r3)" by fastforce
  have "py_sample E r1 fd (min (int (length fd)) n) = Inr (sampled, r2)"
    using assms(2) smp by (simp add: py_sample_def)
  with st pd sh have
    "sentence_step E d n s r =
       Inr (Some \<lparr>card_type = ''mcq'', question = strip q, answer = strip a, options = opts\<rparr>, r3)"
    by (simp add: fd_def)
  with a q fd_def smp sh show ?thesis by (rule that)
qed

lemma sentence_step_total:
  assumes "0 \<le> n"
  shows "\<exists>x. sentence_step E d n s r = Inr x"
proof (cases "sentence_skipped s")
  case True
  then show ?thesis by (simp add: sentence_step_skip)
next
  case False
  then show ?thesis using assms
    by (rule sentence_step_emit[where E = E and d = d and r = r]) simp
qed

section \<open>The loop over the sentences\<close>

lemma sents_loop_total:
  assumes "\<And>s r. \<exists>x. sentence_step E d n s r = Inr x"
  shows "\<exists>x. sents_loop E d n ss acc r = Inr x"
proof (induction ss arbitrary: acc r)
  case Nil
  then show ?case by simp
next
  case (Cons s ss)
  from assms obtain o' r' where "sentence_step E d n s r = Inr (o', r')" by (metis surj_pair)
  then show ?case using Cons.IH by (cases o') auto
qed

lemma sents_loop_all:
  assumes step: "\<And>s r c r'. s \<in> set ss \<Longrightarrow> sentence_step E d n s r = Inr (Some c, r') \<Longrightarrow> P c"
    and acc: "\<forall>c\<in>set acc. P c"
    and run: "sents_loop E d n ss acc r = Inr (cards, r')"
  shows "\<forall>c\<in>set cards. P c"
  using assms
proof (induction ss arbitrary: acc r)
  case Nil
  then show ?case by simp
next
  case (Cons x xs)
  have step': "P c" if "s \<in> set xs" "sentence_step E d n s r = Inr (Some c, r')" for s r c r'
    using Cons.prems(1)[of s r c r'] that by simp
  from Cons.prems(3) obtain o1 r1 where st: "sentence_step E d n x r = Inr (o1, r1)"
    by (auto split: sum.splits)
  show ?case
  proof (cases o1)
    case None
    with st Cons.prems(3) have l: "sents_loop E d n xs acc r1 = Inr (cards, r')" by simp
    show ?thesis by (rule Cons.IH[OF step' Cons.prems(2) l])
  next
    case (Some c)
    with st Cons.prems(3) have l: "sents_loop E d n xs (acc @ [c]) r1 = Inr (cards, r')" by simp
    have "P c" using Cons.prems(1)[of x r c r1] st Some by simp
    with Cons.prems(2) have a: "\<forall>c\<in>set (acc @ [c]). P c" by simp
    show ?thesis by (rule Cons.IH[OF step' a l])
  qed
qed

lemma generate_total:
  assumes "0 \<le> n"
  shows "\<exists>cards r'. generate_mcq_flashcards E r doc_text n = Inr (cards, r')"
proof -
  have "\<exists>x. sents_loop E (nlp E doc_text) n (doc_sents (nlp E doc_text)) [] r = Inr x"
    using assms by (intro sents_loop_total sentence_step_total)
  then show ?thesis by (simp add: generate_mcq_flashcards_def Let_def)
qed

lemma generate_all:
  assumes step: "\<And>s r c r'. s \<in> set (doc_sents (nlp E doc_text)) \<Longrightarrow>
             sentence_step E (nlp E doc_text) n s r = Inr (Some c, r') \<Longrightarrow> P c"
    and run: "generate_mcq_flashcards E r doc_text n = Inr (cards, r')"
  shows "\<forall>c\<in>set cards. P c"
proof -
  from run have l: "sents_loop E (nlp E doc_text) n (doc_sents (nlp E doc_text)) [] r = Inr (cards, r')"
    by (simp add: generate_mcq_flashcards_def Let_def)
  have e: "\<forall>c\<in>set ([]::flashcard list). P c" by simp
  show ?thesis
  proof (rule sents_loop_all[where P = P, OF _ e l])
    fix s r c r'
    assume "s \<in> set (doc_sents (nlp E doc_text))"
      and "sentence_step E (nlp E doc_text) n s r = Inr (Some c, r')"
    then show "P c" by (rule step)
  qed
qed

section \<open>The number of options\<close>

lemma sentence_step_options_length:
  assumes ok: "random_ok E" and n: "1 \<le> n"
    and step: "sentence_step E d n s r = Inr (Some c, r')"
  shows "int (length (options c)) = n + 1"
proof -
  have ns: "\<not> sentence_skipped s"
    using step by (auto simp: sentence_step_skip)
  from n have n0: "0 \<le> n" by simp
  from ns n0 obtain a q pd r1 fd sampled r2 opts r3 where
    fd: "fd = pad_distractors n (select_final n a [] pd)" and
    smp: "random_sample E r1 fd (nat (min (int (length fd)) n)) = (sampled, r2)" and
    sh: "random_shuffle E r2 (a # sampled) = (opts, r3)" and
    st: "sentence_step E d n s r =
       Inr (Some \<lparr>card_type = ''mcq'', question = strip q, answer = strip a, options = opts\<rparr>, r3)"
    by (rule sentence_step_emit)
  from step st have c: "options c = opts" by auto
  have len: "int (length fd) = n" unfolding fd using n by (rule final_length)
  with smp have "random_sample E r1 fd (nat n) = (sampled, r2)" by simp
  moreover have "nat n \<le> length fd" using len by simp
  ultimately have "length sampled = nat n"
    using ok unfolding random_ok_def by (metis fst_conv)
  moreover have "mset opts = mset (a # sampled)"
    using ok sh unfolding random_ok_def by (metis fst_conv)
  then have "length opts = length (a # sampled)"
    by (metis size_mset)
  ultimately show ?thesis using n c by simp
qed

text \<open>
  C2. With a random source that behaves as documented and a distractor count \<open>n \<ge> 1\<close>,
  the call returns, and every flashcard it returns has exactly \<open>n + 1\<close> options, whatever
  the annotation and the synonym lookup give (also no synonym and no fallback candidate).
\<close>

theorem options_length:
  assumes "random_ok E" and "1 \<le> n"
  shows "\<exists>cards r'. generate_mcq_flashcards E r doc_text n = Inr (cards, r') \<and>
           (\<forall>c\<in>set cards. int (length (options c)) = n + 1)"
proof -
  from assms(2) have "0 \<le> n" by simp
  then have "\<exists>cards r'. generate_mcq_flashcards E r doc_text n = Inr (cards, r')"
    by (rule generate_total)
  then obtain cards r' where g: "generate_mcq_flashcards E r doc_text n = Inr (cards, r')"
    by blast
  have "\<forall>c\<in>set cards. int (length (options c)) = n + 1"
    by (rule generate_all[OF _ g]) (rule sentence_step_options_length[OF assms])
  with g show ?thesis by blast
qed

lemma repeat_run:
  "generate_mcq_flashcards repeat_env 0 ''Paris loves Paris.'' 2 =
     Inr ([\<lparr>card_type = ''mcq'', question = ''______ loves Paris.'', answer = ''Paris'',
             options = [''Option 1'', ''Paris'', ''Option 2'']\<rparr>], 3)"
  by code_simp

theorem options_length_witness:
  "random_ok repeat_env \<and> (1::int) \<le> 2 \<and>
   (\<exists>cards r'. generate_mcq_flashcards repeat_env 0 ''Paris loves Paris.'' 2 = Inr (cards, r') \<and>
      cards \<noteq> [] \<and> (\<forall>c\<in>set cards. int (length (options c)) = 2 + 1))"
proof -
  have ok: "random_ok repeat_env" unfolding repeat_env_def by (rule stub_env_random_ok)
  have le: "(1::int) \<le> 2" by simp
  from options_length[OF ok le, of 0 "''Paris loves Paris.''"] ok show ?thesis
    by (simp add: repeat_run)
qed

section \<open>The sampling step\<close>

lemma sentence_step_options_zero:
  assumes ok: "random_ok E" and step: "sentence_step E d 0 s r = Inr (Some c, r')"
  shows "\<exists>a. answer_picker s = Some a \<and> options c = [a] \<and> answer c = strip a"
proof -
  have ns: "\<not> sentence_skipped s"
    using step by (auto simp: sentence_step_skip)
  have n0: "(0::int) \<le> 0" by simp
  from ns n0 obtain a q pd r1 fd sampled r2 opts r3 where
    a: "answer_picker s = Some a" and
    smp: "random_sample E r1 fd (nat (min (int (length fd)) 0)) = (sampled, r2)" and
    sh: "random_shuffle E r2 (a # sampled) = (opts, r3)" and
    st: "sentence_step E d 0 s r =
       Inr (Some \<lparr>card_type = ''mcq'', question = strip q, answer = strip a, options = opts\<rparr>, r3)"
    by (rule sentence_step_emit)
  from step st have c: "options c = opts" "answer c = strip a" by auto
  from smp have "random_sample E r1 fd 0 = (sampled, r2)" by simp
  moreover have "0 \<le> length fd" by simp
  ultimately have "length sampled = 0"
    using ok unfolding random_ok_def by (metis fst_conv)
  then have "sampled = []" by simp
  moreover have "mset opts = mset (a # sampled)"
    using ok sh unfolding random_ok_def by (metis fst_conv)
  ultimately have "mset opts = {#a#}" by simp
  then have "opts = [a]" by (simp add: mset_single_iff)
  with a c show ?thesis by simp
qed

text \<open>
  C10. For a distractor count \<open>n \<ge> 0\<close> the sample size \<open>min (len final_distractors) n\<close>
  is never negative and never more than the population, so the sampling step does not
  raise, and the call returns. For \<open>n = 0\<close> the options of every flashcard returned are
  the one-element list of the answer candidate of its sentence, and its answer is that
  candidate trimmed.
\<close>

theorem sampling_never_raises:
  assumes "random_ok E" and "0 \<le> n"
  shows "(\<forall>r1 fd. py_sample E r1 fd (min (int (length fd)) n) =
             Inr (random_sample E r1 fd (nat (min (int (length fd)) n)))) \<and>
         (\<exists>cards r'. generate_mcq_flashcards E r doc_text n = Inr (cards, r') \<and>
            (n = 0 \<longrightarrow> (\<forall>c\<in>set cards. \<exists>s\<in>set (doc_sents (nlp E doc_text)).
                            \<exists>a. answer_picker s = Some a \<and> options c = [a] \<and> answer c = strip a)))"
proof -
  have smp: "\<forall>r1 fd. py_sample E r1 fd (min (int (length fd)) n) =
             Inr (random_sample E r1 fd (nat (min (int (length fd)) n)))"
    using assms(2) by (simp add: py_sample_def min_def)
  from assms(2) have "\<exists>cards r'. generate_mcq_flashcards E r doc_text n = Inr (cards, r')"
    by (rule generate_total)
  then obtain cards r' where g: "generate_mcq_flashcards E r doc_text n = Inr (cards, r')"
    by blast
  have "\<forall>c\<in>set cards. \<exists>s\<in>set (doc_sents (nlp E doc_text)).
          \<exists>a. answer_picker s = Some a \<and> options c = [a] \<and> answer c = strip a" if z: "n = 0"
  proof (rule generate_all[OF _ g])
    fix s r c r'
    assume "s \<in> set (doc_sents (nlp E doc_text))"
      and "sentence_step E (nlp E doc_text) n s r = Inr (Some c, r')"
    then have m: "s \<in> set (doc_sents (nlp E doc_text))"
      and st: "sentence_step E (nlp E doc_text) 0 s r = Inr (Some c, r')"
      using z by simp_all
    from assms(1) st have "\<exists>a. answer_picker s = Some a \<and> options c = [a] \<and> answer c = strip a"
      by (rule sentence_step_options_zero)
    with m show "\<exists>s\<in>set (doc_sents (nlp E doc_text)).
          \<exists>a. answer_picker s = Some a \<and> options c = [a] \<and> answer c = strip a"
      by blast
  qed
  with smp g show ?thesis by blast
qed

lemma repeat_run_zero:
  "generate_mcq_flashcards repeat_env 0 ''Paris loves Paris.'' 0 =
     Inr ([\<lparr>card_type = ''mcq'', question = ''______ loves Paris.'', answer = ''Paris'',
             options = [''Paris'']\<rparr>], 2)"
  by code_simp

theorem sampling_never_raises_witness:
  "random_ok repeat_env \<and> (0::int) \<le> 0 \<and>
   py_sample repeat_env 5 [''x'', ''y''] (min (int (length [''x'', ''y''])) 0) =
     Inr (random_sample repeat_env 5 [''x'', ''y''] (nat (min (int (length [''x'', ''y''])) 0))) \<and>
   generate_mcq_flashcards repeat_env 0 ''Paris loves Paris.'' 0 =
     Inr ([\<lparr>card_type = ''mcq'', question = ''______ loves Paris.'', answer = ''Paris'',
             options = [''Paris'']\<rparr>], 2)"
proof -
  have ok: "random_ok repeat_env" unfolding repeat_env_def by (rule stub_env_random_ok)
  have le: "(0::int) \<le> 0" by simp
  from sampling_never_raises[OF ok le, of 0 "''Paris loves Paris.''"] ok show ?thesis
    by (simp add: repeat_run_zero)
qed

section \<open>No flashcard\<close>

lemma answer_picker_None_skipped: "answer_picker s = None \<Longrightarrow> sentence_skipped s"
  by (simp add: sentence_skipped_def)

lemma sents_loop_skipped:
  assumes "\<forall>s\<in>set ss. sentence_skipped s"
  shows "sents_loop E d n ss acc r = Inr (acc, r)"
  using assms by (induction ss) (simp_all add: sentence_step_skip)

text \<open>
  C8. A document without sentences, a document all of whose sentences the answer picker
  rejects, and more generally a document all of whose sentences are skipped, give the empty
  list and no exception, for every distractor count; the random source is not used.
\<close>

theorem no_flashcards_empty_list:
  "(doc_sents (nlp E doc_text) = [] \<longrightarrow>
      generate_mcq_flashcards E r doc_text n = Inr ([], r)) \<and>
   ((\<forall>s\<in>set (doc_sents (nlp E doc_text)). answer_picker s = None) \<longrightarrow>
      generate_mcq_flashcards E r doc_text n = Inr ([], r)) \<and>
   ((\<forall>s\<in>set (doc_sents (nlp E doc_text)). sentence_skipped s) \<longrightarrow>
      generate_mcq_flashcards E r doc_text n = Inr ([], r))"
proof -
  have "generate_mcq_flashcards E r doc_text n = Inr ([], r)"
    if "\<forall>s\<in>set (doc_sents (nlp E doc_text)). sentence_skipped s"
    using that by (simp add: generate_mcq_flashcards_def Let_def sents_loop_skipped)
  then show ?thesis
    by (auto simp: answer_picker_None_skipped)
qed

lemma skipped_doc_skipped: "\<forall>s\<in>set (doc_sents skipped_doc). sentence_skipped s"
  by code_simp

theorem no_flashcards_empty_list_witness:
  "list_all sentence_skipped (doc_sents (nlp skipped_env ''It rains.'')) \<and>
   doc_sents (nlp skipped_env ''It rains.'') \<noteq> [] \<and>
   generate_mcq_flashcards skipped_env 0 ''It rains.'' 3 = Inr ([], 0) \<and>
   generate_mcq_flashcards skipped_env 0 ''It rains.'' (-1) = Inr ([], 0)"
proof -
  have d: "nlp skipped_env ''It rains.'' = skipped_doc"
    by (simp add: skipped_env_def stub_env_def)
  have sk: "\<forall>s\<in>set (doc_sents (nlp skipped_env ''It rains.'')). sentence_skipped s"
    unfolding d by (rule skipped_doc_skipped)
  then have la: "list_all sentence_skipped (doc_sents (nlp skipped_env ''It rains.''))"
    by (simp only: list_all_iff)
  have ne: "doc_sents (nlp skipped_env ''It rains.'') \<noteq> []"
    unfolding d by (simp add: skipped_doc_def)
  from no_flashcards_empty_list[of skipped_env "''It rains.''" 0 3]
       no_flashcards_empty_list[of skipped_env "''It rains.''" 0 "-1"] sk la ne
  show ?thesis by blast
qed

section \<open>Questions and answers do not depend on the random source\<close>

lemma sentence_step_qa:
  fixes E1 :: "'a env" and E2 :: "'b env"
  shows "(\<exists>e. sentence_step E1 d n s r1 = Inl e \<and> sentence_step E2 d n s r2 = Inl e) \<or>
         (\<exists>r1' r2'. sentence_step E1 d n s r1 = Inr (None, r1') \<and>
                     sentence_step E2 d n s r2 = Inr (None, r2')) \<or>
         (\<exists>c1 c2 r1' r2'. sentence_step E1 d n s r1 = Inr (Some c1, r1') \<and>
                     sentence_step E2 d n s r2 = Inr (Some c2, r2') \<and>
                     question c1 = question c2 \<and> answer c1 = answer c2)"
proof (cases "sentence_skipped s")
  case True
  then show ?thesis by (simp add: sentence_step_skip)
next
  case ns: False
  show ?thesis
  proof (cases "n < 0")
    case True
    with ns show ?thesis by (simp add: sentence_step_raise)
  next
    case False
    then have n: "0 \<le> n" by simp
    from ns n obtain a q opts r3 where
      a: "answer_picker s = Some a" and q: "question_masker (strip (sent_text s)) a = Some q" and
      s1: "sentence_step E1 d n s r1 =
        Inr (Some \<lparr>card_type = ''mcq'', question = strip q, answer = strip a, options = opts\<rparr>, r3)"
      by (rule sentence_step_emit[where E = E1 and d = d and r = r1])
    from ns n obtain a' q' opts' r3' where
      a': "answer_picker s = Some a'" and q': "question_masker (strip (sent_text s)) a' = Some q'" and
      s2: "sentence_step E2 d n s r2 =
        Inr (Some \<lparr>card_type = ''mcq'', question = strip q', answer = strip a', options = opts'\<rparr>, r3')"
      by (rule sentence_step_emit[where E = E2 and d = d and r = r2])
    from a a' have "a' = a" by simp
    with q q' have "q' = q" by simp
    with \<open>a' = a\<close> s1 s2 show ?thesis by simp
  qed
qed

lemma sents_loop_qa:
  fixes E1 :: "'a env" and E2 :: "'b env"
  assumes "map (\<lambda>c. (question c, answer c)) acc1 = map (\<lambda>c. (question c, answer c)) acc2"
  shows "qa_pairs (sents_loop E1 d n ss acc1 r1) = qa_pairs (sents_loop E2 d n ss acc2 r2)"
  using assms
proof (induction ss arbitrary: acc1 acc2 r1 r2)
  case Nil
  then show ?case by (simp add: qa_pairs_def)
next
  case (Cons s ss)
  from sentence_step_qa[of E1 d n s r1 E2 r2] show ?case
  proof (elim disjE exE conjE)
    fix e
    assume "sentence_step E1 d n s r1 = Inl e" "sentence_step E2 d n s r2 = Inl e"
    then show ?thesis by (simp add: qa_pairs_def)
  next
    fix r1' r2'
    assume "sentence_step E1 d n s r1 = Inr (None, r1')" "sentence_step E2 d n s r2 = Inr (None, r2')"
    then show ?thesis using Cons.IH[OF Cons.prems] by simp
  next
    fix c1 c2 r1' r2'
    assume st: "sentence_step E1 d n s r1 = Inr (Some c1, r1')"
      "sentence_step E2 d n s r2 = Inr (Some c2, r2')"
      and eq: "question c1 = question c2" "answer c1 = answer c2"
    from Cons.prems eq have
      "map (\<lambda>c. (question c, answer c)) (acc1 @ [c1]) = map (\<lambda>c. (question c, answer c)) (acc2 @ [c2])"
      by simp
    then have "qa_pairs (sents_loop E1 d n ss (acc1 @ [c1]) r1') =
               qa_pairs (sents_loop E2 d n ss (acc2 @ [c2]) r2')"
      by (rule Cons.IH)
    with st show ?thesis by simp
  qed
qed

text \<open>
  C9. The questions and answers of the flashcards, in order, are decided by the annotation
  alone: two calls on the same text with the same distractor count give the same pairs (or
  raise the same exception) whatever the random source, its state and the synonym lookup
  are, so in particular when these are held fixed.
\<close>

theorem qa_pairs_deterministic:
  fixes E1 :: "'a env" and E2 :: "'b env"
  assumes "nlp E1 doc_text = nlp E2 doc_text"
  shows "qa_pairs (generate_mcq_flashcards E1 r1 doc_text n) =
         qa_pairs (generate_mcq_flashcards E2 r2 doc_text n)"
  using assms sents_loop_qa[of "[]" "[]" E1 "nlp E2 doc_text" n "doc_sents (nlp E2 doc_text)" r1 E2 r2]
  by (simp add: generate_mcq_flashcards_def Let_def)

theorem qa_pairs_deterministic_witness:
  "nlp repeat_env ''Paris loves Paris.'' = nlp (stub_env (\<lambda>t. repeat_doc) paris_synsets) ''Paris loves Paris.'' \<and>
   qa_pairs (generate_mcq_flashcards (stub_env (\<lambda>t. repeat_doc) paris_synsets) 7 ''Paris loves Paris.'' 2) =
     Inr [(''______ loves Paris.'', ''Paris'')]"
proof -
  have d: "nlp repeat_env ''Paris loves Paris.'' =
           nlp (stub_env (\<lambda>t. repeat_doc) paris_synsets) ''Paris loves Paris.''"
    by (simp add: repeat_env_def stub_env_def)
  from qa_pairs_deterministic[OF d, of 0 2 7] d show ?thesis
    by (simp add: repeat_run qa_pairs_def)
qed

section \<open>The options and the answer\<close>

text \<open>
  C1. The placeholders of line 147 are appended without the comparison that line 140
  makes for the candidates: when the answer reads \<^verbatim>\<open>Option 1\<close> and nothing else is
  available, the answer is twice among the options.
\<close>

theorem placeholder_repeats_answer:
  "generate_mcq_flashcards option_env 0 ''Pick Option 1 now.'' 3 =
     Inr ([\<lparr>card_type = ''mcq'', question = ''Pick ______ now.'', answer = ''Option 1'',
             options = [''Option 3'', ''Option 1'', ''Option 1'', ''Option 2'']\<rparr>], 3) \<and>
   length (filter (\<lambda>opt. lower opt = lower ''Option 1'')
             [''Option 3'', ''Option 1'', ''Option 1'', ''Option 2'']) = 2 \<and>
   \<not> distinct (map lower [''Option 3'', ''Option 1'', ''Option 1'', ''Option 2''])"
  by code_simp

section \<open>The masked question\<close>

text \<open>
  C3. Only the first occurrence of the answer is replaced, and the check of line 107 lets
  the sentence pass as soon as the marker is in the question: an answer that occurs twice
  in the sentence stays readable in the question.
\<close>

theorem answer_remains_in_question:
  "generate_mcq_flashcards repeat_env 0 ''Paris loves Paris.'' 2 =
     Inr ([\<lparr>card_type = ''mcq'', question = ''______ loves Paris.'', answer = ''Paris'',
             options = [''Option 1'', ''Paris'', ''Option 2'']\<rparr>], 3) \<and>
   contains ''Paris'' ''______ loves Paris.''"
proof -
  have "contains ''Paris'' ''______ loves Paris.''" by code_simp
  then show ?thesis by (simp add: repeat_run)
qed

section \<open>The answer picker\<close>

lemma entity_loop_find: "entity_loop es = map_option ent_text (List.find accepted es)"
  by (induction es) (simp_all add: accepted_def)

lemma chunk_loop_find:
  "chunk_loop cand cs =
     (case List.find chunk_ok cs of None \<Rightarrow> cand | Some c \<Rightarrow> Some (chunk_text c))"
  by (induction cs) (simp_all add: chunk_ok_def)

lemma find_chunk_ok_nonempty: "List.find chunk_ok cs = Some c \<Longrightarrow> chunk_text c \<noteq> []"
  by (auto simp: find_Some_iff chunk_ok_def)

lemma reject_short_alt:
  "reject_short a = (if strip a = [] \<or> length (strip a) < 3 then None else Some a)"
  by (auto simp: reject_short_def)

lemma find_accepted_nonempty:
  assumes "\<forall>e\<in>set es. ent_text e \<noteq> []" and "List.find accepted es = Some e"
  shows "ent_text e \<noteq> []"
proof -
  from assms(2) obtain i where "i < length es" and "e = es ! i"
    by (auto simp: find_Some_iff)
  then have "e \<in> set es" by simp
  with assms(1) show ?thesis by blast
qed

lemma answer_picker_eq_spec:
  assumes "\<forall>e\<in>set (sent_ents s). ent_text e \<noteq> []"
  shows "answer_picker s = spec_answer_picker s"
proof (cases "List.find accepted (sent_ents s)")
  case None
  then have c1: "entity_loop (sent_ents s) = None" by (simp add: entity_loop_find)
  show ?thesis
  proof (cases "List.find chunk_ok (sent_noun_chunks s)")
    case n2: None
    with None c1 show ?thesis
      by (simp add: answer_picker_def spec_answer_picker_def first_chunk_def chunk_loop_find)
  next
    case (Some c)
    then have "chunk_text c \<noteq> []" by (rule find_chunk_ok_nonempty)
    with None c1 Some show ?thesis
      by (simp add: answer_picker_def spec_answer_picker_def first_chunk_def chunk_loop_find
            reject_short_alt)
  qed
next
  case (Some e)
  then have c1: "entity_loop (sent_ents s) = Some (ent_text e)" by (simp add: entity_loop_find)
  from assms Some have "ent_text e \<noteq> []" by (rule find_accepted_nonempty)
  with Some c1 show ?thesis
    by (simp add: answer_picker_def spec_answer_picker_def reject_short_alt)
qed

text \<open>
  C5. An entity span of the annotator covers at least one token, so its text is not empty.
  For a sentence annotated so, the picker returns the text of the first entity with an
  accepted label; when there is none, the text of the first noun chunk of more than one
  word, more than 5 characters and a root tagged \<^verbatim>\<open>NOUN\<close>; a candidate whose trimmed
  text has fewer than 3 characters, or no candidate, rejects the sentence, which then
  gives no flashcard.
\<close>

theorem answer_picker_spec:
  assumes "\<forall>e\<in>set (sent_ents s). ent_text e \<noteq> []"
  shows "answer_picker s = spec_answer_picker s \<and>
         (spec_answer_picker s = None \<longrightarrow> sentence_step E d n s r = Inr (None, r))"
proof -
  from assms have eq: "answer_picker s = spec_answer_picker s" by (rule answer_picker_eq_spec)
  have "sentence_step E d n s r = Inr (None, r)" if "spec_answer_picker s = None"
  proof -
    from that eq have "answer_picker s = None" by simp
    then have "sentence_skipped s" by (rule answer_picker_None_skipped)
    then show ?thesis by (rule sentence_step_skip)
  qed
  with eq show ?thesis by simp
qed

theorem answer_picker_spec_witness:
  "list_all (\<lambda>e. ent_text e \<noteq> []) (sent_ents (doc_sents paris_doc ! 0)) \<and>
   answer_picker (doc_sents paris_doc ! 0) = spec_answer_picker (doc_sents paris_doc ! 0) \<and>
   spec_answer_picker (doc_sents paris_doc ! 0) = Some ''Paris'' \<and>
   list_all (\<lambda>e. ent_text e \<noteq> []) (sent_ents (doc_sents skipped_doc ! 2)) \<and>
   spec_answer_picker (doc_sents skipped_doc ! 2) = None \<and>
   sentence_step skipped_env skipped_doc 3 (doc_sents skipped_doc ! 2) 0 = Inr (None, 0) \<and>
   list_all (\<lambda>e. ent_text e \<noteq> []) (sent_ents (doc_sents skipped_doc ! 1)) \<and>
   spec_answer_picker (doc_sents skipped_doc ! 1) = None \<and>
   sentence_step skipped_env skipped_doc 3 (doc_sents skipped_doc ! 1) 0 = Inr (None, 0)"
proof -
  have h0: "list_all (\<lambda>e. ent_text e \<noteq> []) (sent_ents (doc_sents paris_doc ! 0))" by code_simp
  have h1: "list_all (\<lambda>e. ent_text e \<noteq> []) (sent_ents (doc_sents skipped_doc ! 1))" by code_simp
  have h2: "list_all (\<lambda>e. ent_text e \<noteq> []) (sent_ents (doc_sents skipped_doc ! 2))" by code_simp
  have a: "spec_answer_picker (doc_sents paris_doc ! 0) = Some ''Paris''" by code_simp
  have b1: "spec_answer_picker (doc_sents skipped_doc ! 1) = None" by code_simp
  have b2: "spec_answer_picker (doc_sents skipped_doc ! 2) = None" by code_simp
  note T0 = answer_picker_spec[OF h0[unfolded list_all_iff], THEN conjunct1]
  note T1 = answer_picker_spec[OF h1[unfolded list_all_iff], of skipped_env skipped_doc 3 0,
      THEN conjunct2, THEN mp, OF b1]
  note T2 = answer_picker_spec[OF h2[unfolded list_all_iff], of skipped_env skipped_doc 3 0,
      THEN conjunct2, THEN mp, OF b2]
  show ?thesis by (intro conjI h0 T0 a h2 b2 T2 h1 b1 T1)
qed

section \<open>The fallback candidates\<close>

lemma concat_map_if:
  "concat (map (\<lambda>x. if P x then [f x] else []) xs) = map f (filter P xs)"
  by (induction xs) simp_all

lemma temp_distractors_filter:
  "temp_distractors_from_text d a = filter (\<lambda>t. lower t \<noteq> lower a) (document_candidates d)"
  by (simp add: temp_distractors_from_text_def document_candidates_def concat_map_if
        filter_map comp_def conj_commute)

text \<open>
  C6, as the code has it. The fallback candidates of a sentence are the candidates of the
  whole document without those equal to the answer of that sentence, case-insensitively;
  the list is made again, and shuffled again, for each sentence whose synonyms are fewer
  than the distractor count, and is not made for the others.
\<close>

theorem fallback_pool_amended:
  "temp_distractors_from_text d a = filter (\<lambda>t. lower t \<noteq> lower a) (document_candidates d) \<and>
   (int (length (get_synonyms E t)) < n \<longrightarrow>
      possible_distractors E d n a t r =
        (extend_pool n (get_synonyms E t)
           (fst (random_shuffle E r (filter (\<lambda>t. lower t \<noteq> lower a) (document_candidates d)))),
         snd (random_shuffle E r (filter (\<lambda>t. lower t \<noteq> lower a) (document_candidates d))))) \<and>
   (\<not> int (length (get_synonyms E t)) < n \<longrightarrow>
      possible_distractors E d n a t r = (get_synonyms E t, r))"
  by (simp add: temp_distractors_filter possible_distractors_def Let_def split: prod.splits)

theorem fallback_pool_amended_witness:
  "temp_distractors_from_text paris_doc ''Paris'' = [''Eiffel Tower'', ''capital'', ''city''] \<and>
   document_candidates paris_doc = [''Paris'', ''Eiffel Tower'', ''capital'', ''city''] \<and>
   int (length (get_synonyms paris_env ''Tower'')) < 3 \<and>
   possible_distractors paris_env paris_doc 3 ''Eiffel Tower'' ''Tower'' 1 =
     ([''column'', ''pillar'', ''capital'', ''city'', ''Paris''], 2) \<and>
   \<not> int (length (get_synonyms paris_env ''Paris'')) < 3 \<and>
   possible_distractors paris_env paris_doc 3 ''Paris'' ''Paris'' 0 =
     ([''City of Light'', ''French capital'', ''genus Paris''], 0)"
proof -
  have a: "document_candidates paris_doc = [''Paris'', ''Eiffel Tower'', ''capital'', ''city'']"
    by code_simp
  have b: "get_synonyms paris_env ''Tower'' = [''column'', ''pillar'']" by code_simp
  have c: "get_synonyms paris_env ''Paris'' = [''City of Light'', ''French capital'', ''genus Paris'']"
    by code_simp
  have d: "filter (\<lambda>t. lower t \<noteq> lower ''Paris'') [''Paris'', ''Eiffel Tower'', ''capital'', ''city''] =
           [''Eiffel Tower'', ''capital'', ''city'']" by code_simp
  have e: "extend_pool 3 [''column'', ''pillar'']
             (fst (random_shuffle paris_env 1
                (filter (\<lambda>t. lower t \<noteq> lower ''Eiffel Tower'')
                   [''Paris'', ''Eiffel Tower'', ''capital'', ''city'']))) =
           [''column'', ''pillar'', ''capital'', ''city'', ''Paris'']" by code_simp
  have f: "snd (random_shuffle paris_env 1
                (filter (\<lambda>t. lower t \<noteq> lower ''Eiffel Tower'')
                   [''Paris'', ''Eiffel Tower'', ''capital'', ''city''])) = 2" by code_simp
  from fallback_pool_amended[of paris_doc "''Paris''" paris_env "''Paris''" 3 0]
       fallback_pool_amended[of paris_doc "''Eiffel Tower''" paris_env "''Tower''" 3 1]
       a b c d e f
  show ?thesis by simp
qed

text \<open>
  The claim as the specification words it fails: the candidates handed to the shuffle
  differ with the answer of the sentence being processed.
\<close>

theorem fallback_pool_counterexample:
  "temp_distractors_from_text paris_doc ''Paris'' = [''Eiffel Tower'', ''capital'', ''city''] \<and>
   temp_distractors_from_text paris_doc ''Eiffel Tower'' = [''Paris'', ''capital'', ''city''] \<and>
   temp_distractors_from_text paris_doc ''Paris'' \<noteq> temp_distractors_from_text paris_doc ''Eiffel Tower''"
  by code_simp

section \<open>The lookup key and the synonyms\<close>

lemma split_go_append_space:
  "isspace c \<Longrightarrow> split_go cur (xs @ c # ys) = split_go cur xs @ split_go [] ys"
  by (induction xs arbitrary: cur) simp_all

lemma split_go_no_space:
  "\<forall>c\<in>set s. \<not> isspace c \<Longrightarrow> split_go cur s = (if cur @ s = [] then [] else [cur @ s])"
  by (induction s arbitrary: cur) simp_all

lemma py_split_two_words:
  assumes "a \<noteq> []" and "\<not> isspace (hd a)" and "\<not> isspace (last a)" and "c \<in> set a" and "isspace c"
  shows "1 < length (py_split a)"
proof -
  from assms(4) obtain xs ys where a: "a = xs @ c # ys" by (meson split_list)
  from assms(2,5) a have "xs \<noteq> []" by (cases xs) auto
  with a assms(2) have "\<not> (\<forall>x\<in>set xs. isspace x)" by (cases xs) auto
  then have x: "split_go [] xs \<noteq> []" by (simp add: split_go_Nil_iff)
  from assms(3,5) a have "ys \<noteq> []" by (cases ys rule: rev_cases) auto
  with a assms(3) have "\<not> (\<forall>y\<in>set ys. isspace y)" by (cases ys rule: rev_cases) auto
  then have y: "split_go [] ys \<noteq> []" by (simp add: split_go_Nil_iff)
  have "py_split a = split_go [] xs @ split_go [] ys"
    unfolding py_split_def a using assms(5) by (rule split_go_append_space)
  moreover from x have "1 \<le> length (split_go [] xs)" by (cases "split_go [] xs") simp_all
  moreover from y have "1 \<le> length (split_go [] ys)" by (cases "split_go [] ys") simp_all
  ultimately show ?thesis by simp
qed

lemma strip_hd_last:
  assumes "strip s \<noteq> []"
  shows "\<not> isspace (hd (strip s)) \<and> \<not> isspace (last (strip s))"
proof -
  define t where "t = dropWhile isspace s"
  define u where "u = dropWhile isspace (rev t)"
  have su: "strip s = rev u" by (simp add: strip_def t_def u_def)
  with assms have une: "u \<noteq> []" by simp
  then have hu: "\<not> isspace (hd u)" unfolding u_def by (rule hd_dropWhile)
  from une have tne: "t \<noteq> []" by (auto simp: u_def)
  then have ht: "\<not> isspace (hd t)" unfolding t_def by (rule hd_dropWhile)
  have "rev t = takeWhile isspace (rev t) @ u" by (simp add: u_def)
  then have "last (rev t) = last u" using une by (metis last_appendR)
  with tne have lu: "last u = hd t" by (simp add: last_rev)
  from une have "hd (rev u) = last u" by (simp add: hd_rev)
  moreover from une have "last (rev u) = hd u" by (simp add: last_rev)
  ultimately show ?thesis using su hu ht lu by simp
qed

lemma strip_id:
  assumes "s \<noteq> []" and "\<not> isspace (hd s)" and "\<not> isspace (last s)"
  shows "strip s = s"
proof -
  from assms(1,2) have "dropWhile isspace s = s" by (cases s) simp_all
  moreover from assms(1,3) have "dropWhile isspace (rev s) = rev s"
    by (cases s rule: rev_cases) simp_all
  ultimately show ?thesis by (simp add: strip_def)
qed

lemma get_synonyms_not_word:
  assumes "set_ok E"
  shows "\<forall>x\<in>set (get_synonyms E w). lower x \<noteq> lower w"
proof -
  from assms have "set (list_of_set E xs) = set xs" for xs by (simp add: set_ok_def)
  then show ?thesis by (auto simp: get_synonyms_def Let_def split: if_splits)
qed

lemma select_final_not_answer:
  assumes "\<forall>x\<in>set fd. lower x \<noteq> lower a"
  shows "\<forall>x\<in>set (select_final n a fd pd). lower x \<noteq> lower a"
  using assms
proof (induction pd arbitrary: fd)
  case Nil
  then show ?case by simp
next
  case (Cons d ds)
  show ?case
  proof (cases "lower d \<noteq> lower a \<and> lower d \<notin> set (map lower fd)")
    case True
    with Cons.prems have ok: "\<forall>x\<in>set (fd @ [d]). lower x \<noteq> lower a" by simp
    then have "\<forall>x\<in>set (select_final n a (fd @ [d]) ds). lower x \<noteq> lower a" by (rule Cons.IH)
    with True ok show ?thesis by (simp add: Let_def)
  next
    case False
    from Cons.prems have "\<forall>x\<in>set (select_final n a fd ds). lower x \<noteq> lower a" by (rule Cons.IH)
    with False show ?thesis by auto
  qed
qed

lemma target_word_eq:
  assumes "strip a \<noteq> []"
  shows "target_word_for_synonym a = Inr (if CHR '' '' \<in> set a then last (py_split a) else a)"
proof -
  from assms have "py_split a \<noteq> []" by (rule py_split_nonempty)
  then show ?thesis by (cases "py_split a") (simp_all add: target_word_for_synonym_def)
qed

lemma target_word_eq_spec:
  assumes ne: "strip a \<noteq> []" and st: "strip a = a"
    and only: "\<forall>c\<in>set a. isspace c \<longrightarrow> c = CHR '' ''"
  shows "target_word_for_synonym a = Inr (spec_lookup_key a)"
proof -
  have sp: "isspace CHR '' ''" by (simp add: isspace_def)
  have "(if CHR '' '' \<in> set a then last (py_split a) else a) = spec_lookup_key a"
  proof (cases "CHR '' '' \<in> set a")
    case True
    from ne st have "a \<noteq> []" by auto
    moreover from ne have "\<not> isspace (hd (strip a)) \<and> \<not> isspace (last (strip a))"
      by (rule strip_hd_last)
    with st have "\<not> isspace (hd a)" "\<not> isspace (last a)" by simp_all
    ultimately have "1 < length (py_split a)" using True sp by (rule py_split_two_words)
    with True show ?thesis by (simp add: spec_lookup_key_def)
  next
    case False
    with only have "\<forall>c\<in>set a. \<not> isspace c" by auto
    then have "py_split a = (if a = [] then [] else [a])"
      unfolding py_split_def using split_go_no_space[of a "[]"] by simp
    with False show ?thesis by (simp add: spec_lookup_key_def)
  qed
  with target_word_eq[OF ne] show ?thesis by simp
qed

text \<open>
  An answer of two words parted by a line feed holds no space character, and line 114
  looks the whole answer up, where the comment of line 113 speaks of the last word of a
  phrase and lines 93 and 122 count the words with \<^verbatim>\<open>split()\<close>.
\<close>

lemma target_word_line_feed:
  "target_word_for_synonym (''New'' @ [CHR 0x0A] @ ''York'') = Inr (''New'' @ [CHR 0x0A] @ ''York'') \<and>
   spec_lookup_key (''New'' @ [CHR 0x0A] @ ''York'') = ''York''"
  by code_simp

text \<open>
  C7, as the code has it, for an answer whose words are parted by space characters only
  (no other whitespace, and none at either end). The lookup key is the last word of the
  answer when the answer has several words, and the whole answer otherwise. The synonyms
  returned for the key differ from the key case-insensitively. The full answer is not
  taken out of the synonyms; it is left out later, when the final distractors are
  selected.
\<close>

theorem lookup_key_amended:
  assumes "set_ok E" and "strip a \<noteq> []" and "strip a = a"
    and "\<forall>c\<in>set a. isspace c \<longrightarrow> c = CHR '' ''"
  shows "target_word_for_synonym a = Inr (spec_lookup_key a) \<and>
         (\<forall>x\<in>set (get_synonyms E (spec_lookup_key a)). lower x \<noteq> lower (spec_lookup_key a)) \<and>
         (\<forall>x\<in>set (select_final n a [] pd). lower x \<noteq> lower a)"
proof -
  have k: "target_word_for_synonym a = Inr (spec_lookup_key a)"
    using assms(2,3,4) by (rule target_word_eq_spec)
  have syn: "\<forall>x\<in>set (get_synonyms E (spec_lookup_key a)). lower x \<noteq> lower (spec_lookup_key a)"
    using assms(1) by (rule get_synonyms_not_word)
  have fin: "\<forall>x\<in>set (select_final n a [] pd). lower x \<noteq> lower a"
    by (rule select_final_not_answer) simp
  show ?thesis by (rule conjI[OF k conjI[OF syn fin]])
qed

theorem lookup_key_amended_witness:
  "set_ok dog_env \<and> strip ''hot dog'' \<noteq> [] \<and> strip ''hot dog'' = ''hot dog'' \<and>
   list_all (\<lambda>c. isspace c \<longrightarrow> c = CHR '' '') ''hot dog'' \<and>
   target_word_for_synonym ''hot dog'' = Inr (spec_lookup_key ''hot dog'') \<and>
   spec_lookup_key ''hot dog'' = ''dog'' \<and>
   get_synonyms dog_env ''dog'' = [''frank'', ''hot dog''] \<and>
   list_all (\<lambda>x. lower x \<noteq> lower (spec_lookup_key ''hot dog''))
     (get_synonyms dog_env (spec_lookup_key ''hot dog'')) \<and>
   select_final 3 ''hot dog'' [] (get_synonyms dog_env ''dog'') = [''frank''] \<and>
   list_all (\<lambda>x. lower x \<noteq> lower ''hot dog'')
     (select_final 3 ''hot dog'' [] (get_synonyms dog_env ''dog''))"
proof -
  have ok: "set_ok dog_env" unfolding dog_env_def by (rule stub_env_set_ok)
  have ne: "strip ''hot dog'' \<noteq> []" by code_simp
  have st: "strip ''hot dog'' = ''hot dog''" by code_simp
  have only: "list_all (\<lambda>c. isspace c \<longrightarrow> c = CHR '' '') ''hot dog''" by code_simp
  note T = lookup_key_amended[OF ok ne st only[unfolded list_all_iff],
      of 3 "get_synonyms dog_env ''dog''"]
  have c: "spec_lookup_key ''hot dog'' = ''dog''" by code_simp
  have d: "get_synonyms dog_env ''dog'' = [''frank'', ''hot dog'']" by code_simp
  have e: "select_final 3 ''hot dog'' [] (get_synonyms dog_env ''dog'') = [''frank'']"
    by code_simp
  have s1: "list_all (\<lambda>x. lower x \<noteq> lower (spec_lookup_key ''hot dog''))
     (get_synonyms dog_env (spec_lookup_key ''hot dog''))"
    unfolding list_all_iff by (rule T[THEN conjunct2, THEN conjunct1])
  have s2: "list_all (\<lambda>x. lower x \<noteq> lower ''hot dog'')
     (select_final 3 ''hot dog'' [] (get_synonyms dog_env ''dog''))"
    unfolding list_all_iff by (rule T[THEN conjunct2, THEN conjunct2])
  show ?thesis by (intro conjI ok ne st only T[THEN conjunct1] c d s1 e s2)
qed

text \<open>
  The claim as the specification words it fails on the full answer: the synonyms looked
  up for the key \<^verbatim>\<open>dog\<close> of the answer \<^verbatim>\<open>hot dog\<close> hold \<^verbatim>\<open>hot dog\<close>.
\<close>

theorem lookup_key_counterexample:
  "target_word_for_synonym ''hot dog'' = Inr ''dog'' \<and>
   spec_lookup_key ''hot dog'' = ''dog'' \<and>
   ''hot dog'' \<in> set (get_synonyms dog_env ''dog'')"
  by code_simp

section \<open>The question masker\<close>

lemma startswith_take: "startswith s p \<longleftrightarrow> length p \<le> length s \<and> take (length p) s = p"
  by (induction s p rule: startswith.induct) auto

lemma occurs_at_0: "occurs_at sub s 0 = startswith s sub"
  by (auto simp: occurs_at_def startswith_take)

lemma occurs_at_Suc: "occurs_at sub (c # cs) (Suc i) = occurs_at sub cs i"
  by (simp add: occurs_at_def)

lemma find_map_Suc:
  "List.find P (map Suc xs) = map_option Suc (List.find (\<lambda>i. P (Suc i)) xs)"
  by (induction xs) simp_all

lemma first_occurrence_Nil: "first_occurrence sub [] = (if sub = [] then Some 0 else None)"
  by (simp add: first_occurrence_def occurs_at_def)

lemma first_occurrence_Cons:
  "first_occurrence sub (c # cs) =
     (if startswith (c # cs) sub then Some 0 else map_option Suc (first_occurrence sub cs))"
proof -
  have a: "[0..<Suc (Suc (length cs))] = 0 # [Suc 0..<Suc (Suc (length cs))]"
    by (rule upt_conv_Cons) simp
  have b: "map Suc [0..<Suc (length cs)] = [Suc 0..<Suc (Suc (length cs))]"
    by (rule map_Suc_upt)
  have u: "[0..<Suc (length (c # cs))] = 0 # map Suc [0..<Suc (length cs)]"
    unfolding length_Cons b by (rule a)
  show ?thesis
    unfolding first_occurrence_def u
    by (simp add: find_map_Suc occurs_at_0 occurs_at_Suc del: upt_Suc)
qed

lemma replace1_spec_mask: "replace1 a blank s = spec_mask a s"
proof (induction s)
  case Nil
  then show ?case by (simp add: spec_mask_def first_occurrence_Nil)
next
  case (Cons c cs)
  show ?case
  proof (cases "startswith (c # cs) a")
    case True
    then show ?thesis by (simp add: spec_mask_def first_occurrence_Cons)
  next
    case False
    then show ?thesis using Cons.IH
      by (cases "first_occurrence a cs") (simp_all add: spec_mask_def first_occurrence_Cons)
  qed
qed

lemma replace1_shape:
  "replace1 a new s = s \<or> (\<exists>i. replace1 a new s = take i s @ new @ drop (i + length a) s)"
proof (induction s)
  case Nil
  then show ?case by simp
next
  case (Cons c cs)
  show ?case
  proof (cases "startswith (c # cs) a")
    case True
    then have "replace1 a new (c # cs) = take 0 (c # cs) @ new @ drop (0 + length a) (c # cs)"
      by simp
    then show ?thesis by blast
  next
    case False
    from Cons.IH show ?thesis
    proof
      assume "replace1 a new cs = cs"
      with False show ?thesis by simp
    next
      assume "\<exists>i. replace1 a new cs = take i cs @ new @ drop (i + length a) cs"
      then obtain i where "replace1 a new cs = take i cs @ new @ drop (i + length a) cs" by blast
      with False have
        "replace1 a new (c # cs) = take (Suc i) (c # cs) @ new @ drop (Suc i + length a) (c # cs)"
        by simp
      then show ?thesis by blast
    qed
  qed
qed

lemma hd_take_mid:
  assumes "s \<noteq> []" and "new \<noteq> []"
  shows "hd (take i s @ new @ rest) = (if i = 0 then hd new else hd s)"
  using assms by (cases i; cases s) simp_all

lemma last_mid_drop:
  assumes "s \<noteq> []" and "new \<noteq> []"
  shows "last (pre @ new @ drop k s) = (if length s \<le> k then last new else last s)"
  using assms by (simp add: last_append)

lemma replace1_stripped:
  assumes "s \<noteq> []" and "\<not> isspace (hd s)" and "\<not> isspace (last s)"
    and "new \<noteq> []" and "\<not> isspace (hd new)" and "\<not> isspace (last new)"
  shows "strip (replace1 a new s) = replace1 a new s"
proof -
  from replace1_shape[of a new s]
  have "replace1 a new s \<noteq> [] \<and> \<not> isspace (hd (replace1 a new s)) \<and>
        \<not> isspace (last (replace1 a new s))"
  proof
    assume "replace1 a new s = s"
    with assms show ?thesis by simp
  next
    assume "\<exists>i. replace1 a new s = take i s @ new @ drop (i + length a) s"
    then obtain i where r: "replace1 a new s = take i s @ new @ drop (i + length a) s" by blast
    have "hd (take i s @ new @ drop (i + length a) s) = (if i = 0 then hd new else hd s)"
      using assms(1,4) by (rule hd_take_mid)
    moreover have "last (take i s @ new @ drop (i + length a) s) =
        (if length s \<le> i + length a then last new else last s)"
      using assms(1,4) by (rule last_mid_drop)
    ultimately show ?thesis using r assms by simp
  qed
  then show ?thesis by (simp add: strip_id)
qed

lemma blank_props: "blank \<noteq> [] \<and> \<not> isspace (hd blank) \<and> \<not> isspace (last blank)"
  by (simp add: blank_def isspace_def)

lemma question_stripped:
  assumes "strip t \<noteq> []"
  shows "strip (replace1 a blank (strip t)) = replace1 a blank (strip t)"
proof -
  from assms have "\<not> isspace (hd (strip t)) \<and> \<not> isspace (last (strip t))" by (rule strip_hd_last)
  with assms blank_props show ?thesis by (simp add: replace1_stripped)
qed

text \<open>
  C4. For a sentence with a chosen answer, the question is the trimmed sentence text with
  the first occurrence of the answer, compared character by character, replaced by the
  blank marker. The sentence is rejected exactly when the marker is not in that question
  and the lowercase answer is in the lowercase question; otherwise a flashcard with that
  question is made (for a distractor count \<open>n \<ge> 0\<close>).
\<close>

theorem masking_rule:
  assumes "strip (sent_text s) \<noteq> []" and "answer_picker s = Some a" and "0 \<le> n"
  shows "(if \<not> contains blank (spec_mask a (strip (sent_text s))) \<and>
             contains (lower a) (lower (spec_mask a (strip (sent_text s))))
          then sentence_step E d n s r = Inr (None, r)
          else \<exists>c r'. sentence_step E d n s r = Inr (Some c, r') \<and>
                 question c = spec_mask a (strip (sent_text s)))"
proof (cases "\<not> contains blank (spec_mask a (strip (sent_text s))) \<and>
             contains (lower a) (lower (spec_mask a (strip (sent_text s))))")
  case True
  with assms(2) have "sentence_skipped s"
    by (simp add: sentence_skipped_def question_masker_def Let_def replace1_spec_mask)
  then have "sentence_step E d n s r = Inr (None, r)" by (rule sentence_step_skip)
  then show ?thesis unfolding if_P[OF True] .
next
  case False
  with assms(1,2) have ns: "\<not> sentence_skipped s"
    by (auto simp: sentence_skipped_def question_masker_def Let_def replace1_spec_mask)
  from ns assms(3) obtain a' q opts r3 where
    a': "answer_picker s = Some a'" and q: "question_masker (strip (sent_text s)) a' = Some q" and
    st: "sentence_step E d n s r =
      Inr (Some \<lparr>card_type = ''mcq'', question = strip q, answer = strip a', options = opts\<rparr>, r3)"
    by (rule sentence_step_emit[where E = E and d = d and r = r])
  from a' assms(2) have "a' = a" by simp
  with q have qq: "q = replace1 a blank (strip (sent_text s))"
    by (auto simp: question_masker_def Let_def split: if_splits)
  from assms(1) have "strip (replace1 a blank (strip (sent_text s))) =
      replace1 a blank (strip (sent_text s))"
    by (rule question_stripped)
  with qq have "strip q = q" by simp
  with qq have "strip q = spec_mask a (strip (sent_text s))"
    by (simp only: replace1_spec_mask)
  with st have "\<exists>c r'. sentence_step E d n s r = Inr (Some c, r') \<and>
                 question c = spec_mask a (strip (sent_text s))" by simp
  then show ?thesis unfolding if_not_P[OF False] .
qed

theorem masking_rule_witness:
  "strip (sent_text (doc_sents paris_doc ! 0)) \<noteq> [] \<and>
   answer_picker (doc_sents paris_doc ! 0) = Some ''Paris'' \<and> (0::int) \<le> 3 \<and>
   spec_mask ''Paris'' (strip (sent_text (doc_sents paris_doc ! 0))) =
     ''The capital city of France is ______.'' \<and>
   (\<exists>c r'. sentence_step paris_env paris_doc 3 (doc_sents paris_doc ! 0) 0 = Inr (Some c, r') \<and>
      question c = ''The capital city of France is ______.'') \<and>
   strip (sent_text (doc_sents skipped_doc ! 3)) \<noteq> [] \<and>
   answer_picker (doc_sents skipped_doc ! 3) = Some ''Paris'' \<and>
   spec_mask ''Paris'' (strip (sent_text (doc_sents skipped_doc ! 3))) = ''paris is nice.'' \<and>
   sentence_step skipped_env skipped_doc 3 (doc_sents skipped_doc ! 3) 0 = Inr (None, 0)"
proof -
  have ne: "strip (sent_text (doc_sents paris_doc ! 0)) \<noteq> []" by code_simp
  have a: "answer_picker (doc_sents paris_doc ! 0) = Some ''Paris''" by code_simp
  have n: "(0::int) \<le> 3" by simp
  have m: "spec_mask ''Paris'' (strip (sent_text (doc_sents paris_doc ! 0))) =
     ''The capital city of France is ______.''" by code_simp
  have c: "\<not> (\<not> contains blank ''The capital city of France is ______.'' \<and>
     contains (lower ''Paris'') (lower ''The capital city of France is ______.''))" by code_simp
  have ne2: "strip (sent_text (doc_sents skipped_doc ! 3)) \<noteq> []" by code_simp
  have a2: "answer_picker (doc_sents skipped_doc ! 3) = Some ''Paris''" by code_simp
  have m2: "spec_mask ''Paris'' (strip (sent_text (doc_sents skipped_doc ! 3))) = ''paris is nice.''"
    by code_simp
  have c2: "\<not> contains blank ''paris is nice.'' \<and>
     contains (lower ''Paris'') (lower ''paris is nice.'')" by code_simp
  note T1 = masking_rule[OF ne a n, of paris_env paris_doc 0, unfolded m if_not_P[OF c]]
  note T2 = masking_rule[OF ne2 a2 n, of skipped_env skipped_doc 0, unfolded m2 if_P[OF c2]]
  show ?thesis by (intro conjI ne a n m T1 ne2 a2 m2 T2)
qed

end
